theory Spec2Isabelle
  imports Main "HOL-Library.AList"
begin

section \<open>A shallow embedding of the SSE feed (package sse)\<close>

text \<open>
  The feed of the Go package is embedded by explicit state passing. A Go string is a
  byte sequence, here a \<open>string\<close> (a list of 8-bit characters). Everything that ends a
  call other than a normal return is a value of the type \<open>fault\<close>: the three run-time
  panics the code can raise, and a goroutine that calls \<open>Lock\<close> on a mutex that is held
  (\<open>sync.Mutex\<close> is not reentrant, so a goroutine that holds the mutex itself never gets
  past that call).
\<close>

subsection \<open>Faults, channels and the data model\<close>

datatype fault =
    SendOnClosedChannel
  | CloseOfClosedChannel
  | IndexOutOfRange
  | BlockedOnMutex

text \<open>
  A channel is its closed flag and the values sent on it so far, oldest first. A send on
  the unbuffered \<open>feed\<close> channel completes when the subscriber receives the value, a send
  on \<open>errFeed\<close> (capacity 1) when the buffer has room; the model takes every send on an
  open channel as completing, so \<open>sent\<close> is what the subscriber observes on the channel.
  A send on a closed channel and a second \<open>close\<close> panic, as the Go runtime does.
\<close>

record 'a chan =
  chan_closed :: bool
  sent :: "'a list"

definition make_chan :: "'a chan" where
  "make_chan = \<lparr>chan_closed = False, sent = []\<rparr>"

definition send :: "'a \<Rightarrow> 'a chan \<Rightarrow> fault + 'a chan" where
  "send v c = (if chan_closed c then Inl SendOnClosedChannel else Inr (c\<lparr>sent := sent c @ [v]\<rparr>))"

definition close_chan :: "'a chan \<Rightarrow> fault + 'a chan" where
  "close_chan c = (if chan_closed c then Inl CloseOfClosedChannel else Inr (c\<lparr>chan_closed := True\<rparr>))"

text \<open>
  \<open>StringEvent\<close> is built at lines 157-161 of the source from its three string fields
  \<open>Id\<close>, \<open>Event\<close> and \<open>Data\<close>; it is the value sent on a subscription's \<open>feed\<close>.
\<close>

record StringEvent =
  evId :: string
  evEvent :: string
  evData :: string

definition emptyEvent :: StringEvent where
  "emptyEvent = \<lparr>evId = [], evEvent = [], evData = []\<rparr>"

text \<open>
  A \<open>Subscription\<close> (lines 15-22). The \<open>parent\<close> pointer is the feed the subscription
  is registered in, which every operation below takes as its state argument. An error
  value is its message.
\<close>

record Subscription =
  sub_id :: string
  eventType :: string
  feed :: "StringEvent chan"
  errFeed :: "string chan"

text \<open>
  The feed (lines 40-47). The Go map from ids to subscription pointers is an association
  list, updated in place by \<open>AList.update\<close> and ranged over in list order (Go leaves the
  order of a \<open>range\<close> over a map open). The channels are reached only through the
  subscription, so their state is kept in the entry. \<open>subscriptionsMtx\<close> is \<open>True\<close>
  while the mutex is held.
\<close>

record SSEFeed =
  subscriptions :: "(string \<times> Subscription) list"
  subscriptionsMtx :: bool
  stopChan :: "unit chan"
  closed :: bool
  unfinishedEvent :: "StringEvent option"

definition Lock :: "SSEFeed \<Rightarrow> fault + SSEFeed" where
  "Lock s = (if subscriptionsMtx s then Inl BlockedOnMutex else Inr (s\<lparr>subscriptionsMtx := True\<rparr>))"

definition Unlock :: "SSEFeed \<Rightarrow> SSEFeed" where
  "Unlock s = s\<lparr>subscriptionsMtx := False\<rparr>"

text \<open>The feed as \<open>ConnectWithSSEFeed\<close> builds it (lines 73-76).\<close>

definition newFeed :: SSEFeed where
  "newFeed = \<lparr>subscriptions = [], subscriptionsMtx = False, stopChan = make_chan,
     closed = False, unfinishedEvent = None\<rparr>"

subsection \<open>The functions of package strings that the parser calls\<close>

definition LF :: char where
  "LF = CHR 0x0A"

definition trimLeftByte :: "string \<Rightarrow> char \<Rightarrow> string" where
  "trimLeftByte s c = dropWhile (\<lambda>x. x = c) s"

definition trimRightByte :: "string \<Rightarrow> char \<Rightarrow> string" where
  "trimRightByte s c = rev (dropWhile (\<lambda>x. x = c) (rev s))"

text \<open>\<open>strings.TrimRight\<close> and \<open>strings.Trim\<close> for a cutset of one ASCII byte.\<close>

definition TrimRight :: "string \<Rightarrow> char \<Rightarrow> string" where
  "TrimRight s c = trimRightByte s c"

definition Trim :: "string \<Rightarrow> char \<Rightarrow> string" where
  "Trim s c = trimLeftByte (trimRightByte s c) c"

text \<open>
  \<open>strings.SplitN s sep 2\<close> for a separator of one byte: the string itself when the
  separator does not occur, else the part before its first occurrence and the part after.
\<close>

definition SplitN :: "string \<Rightarrow> char \<Rightarrow> string list" where
  "SplitN s sep =
     (if sep \<in> set s
      then [takeWhile (\<lambda>x. x \<noteq> sep) s, tl (dropWhile (\<lambda>x. x \<noteq> sep) s)]
      else [s])"

text \<open>Indexing a slice panics out of range.\<close>

definition index :: "'a list \<Rightarrow> nat \<Rightarrow> fault + 'a" where
  "index xs i = (if i < length xs then Inr (xs ! i) else Inl IndexOutOfRange)"

subsection \<open>Subscribing and unsubscribing\<close>

text \<open>
  \<open>Subscribe\<close> (lines 116-135). The id that \<open>uuid.New().String()\<close> returns is the
  argument \<open>uuid\<close>. The result is the feed, the subscription handle (\<open>None\<close> for nil) and
  the error (\<open>None\<close> for nil).
\<close>

definition Subscribe ::
  "string \<Rightarrow> string \<Rightarrow> SSEFeed \<Rightarrow> fault + (SSEFeed \<times> Subscription option \<times> string option)" where
  "Subscribe evType uuid s =
     (if closed s then Inr (s, None, Some ''sse feed closed'')
      else
        let sub = \<lparr>sub_id = uuid, eventType = evType, feed = make_chan, errFeed = make_chan\<rparr> in
        case Lock s of
          Inl f \<Rightarrow> Inl f
        | Inr s1 \<Rightarrow>
            Inr (Unlock (s1\<lparr>subscriptions := AList.update (sub_id sub) sub (subscriptions s1)\<rparr>),
                 Some sub, None))"

text \<open>\<open>closeSubscription\<close> (lines 137-146): the entry is looked up and its channel closed.\<close>

definition closeSubscription :: "string \<Rightarrow> SSEFeed \<Rightarrow> fault + (SSEFeed \<times> bool)" where
  "closeSubscription i s =
     (case Lock s of
        Inl f \<Rightarrow> Inl f
      | Inr s1 \<Rightarrow>
          (case map_of (subscriptions s1) i of
             Some sub \<Rightarrow>
               (case close_chan (feed sub) of
                  Inl f \<Rightarrow> Inl f
                | Inr c \<Rightarrow>
                    Inr (Unlock (s1\<lparr>subscriptions :=
                           AList.update i (sub\<lparr>feed := c\<rparr>) (subscriptions s1)\<rparr>), True))
           | None \<Rightarrow> Inr (Unlock s1, False)))"

text \<open>\<open>Subscription.Close\<close> (lines 36-38) drops the boolean.\<close>

definition Subscription_Close :: "Subscription \<Rightarrow> SSEFeed \<Rightarrow> fault + SSEFeed" where
  "Subscription_Close sub s = map_sum id fst (closeSubscription (sub_id sub) s)"

subsection \<open>Closing the feed\<close>

text \<open>The loop of \<open>Close\<close> (lines 110-112) over the keys of the map.\<close>

fun closeSubscriptions :: "string list \<Rightarrow> SSEFeed \<Rightarrow> fault + SSEFeed" where
  "closeSubscriptions [] s = Inr s"
| "closeSubscriptions (subId # ids) s =
     (case closeSubscription subId s of
        Inl f \<Rightarrow> Inl f
      | Inr (s', _) \<Rightarrow> closeSubscriptions ids s')"

definition Close :: "SSEFeed \<Rightarrow> fault + SSEFeed" where
  "Close s =
     (if closed s then Inr s
      else
        case close_chan (stopChan s) of
          Inl f \<Rightarrow> Inl f
        | Inr c \<Rightarrow>
            (case closeSubscriptions (map fst (subscriptions s)) (s\<lparr>stopChan := c\<rparr>) of
               Inl f \<Rightarrow> Inl f
             | Inr s' \<Rightarrow> Inr (s'\<lparr>closed := True\<rparr>)))"

subsection \<open>Processing a line\<close>

text \<open>The fan-out loop of \<open>processRaw\<close> (lines 163-167).\<close>

fun deliver ::
  "StringEvent \<Rightarrow> (string \<times> Subscription) list \<Rightarrow> fault + (string \<times> Subscription) list" where
  "deliver evt [] = Inr []"
| "deliver evt ((k, subscription) # rest) =
     (if eventType subscription = [] \<or> eventType subscription = evEvent evt
      then
        (case send evt (feed subscription) of
           Inl f \<Rightarrow> Inl f
         | Inr c \<Rightarrow>
             (case deliver evt rest of
                Inl f \<Rightarrow> Inl f
              | Inr rest' \<Rightarrow> Inr ((k, subscription\<lparr>feed := c\<rparr>) # rest')))
      else
        (case deliver evt rest of
           Inl f \<Rightarrow> Inl f
         | Inr rest' \<Rightarrow> Inr ((k, subscription) # rest')))"

text \<open>
  Lines 170-189, which every call of \<open>processRaw\<close> that has not returned reaches: the
  line is stripped of its newlines and split at the first colon, and \<open>split[1]\<close> is read
  in the three recognised cases of the switch.
\<close>

definition processField :: "string \<Rightarrow> SSEFeed \<Rightarrow> fault + SSEFeed" where
  "processField b s =
     (let payload = TrimRight b LF;
          split = SplitN payload (CHR '':'')
      in
        case split of
          [] \<Rightarrow> Inl IndexOutOfRange
        | name # _ \<Rightarrow>
            if name = [] then Inr s
            else
              let u = (case unfinishedEvent s of None \<Rightarrow> emptyEvent | Some u \<Rightarrow> u) in
              if name = ''id'' then
                (case index split 1 of
                   Inl f \<Rightarrow> Inl f
                 | Inr v \<Rightarrow> Inr (s\<lparr>unfinishedEvent := Some (u\<lparr>evId := Trim v (CHR '' '')\<rparr>)\<rparr>))
              else if name = ''event'' then
                (case index split 1 of
                   Inl f \<Rightarrow> Inl f
                 | Inr v \<Rightarrow> Inr (s\<lparr>unfinishedEvent := Some (u\<lparr>evEvent := Trim v (CHR '' '')\<rparr>)\<rparr>))
              else if name = ''data'' then
                (case index split 1 of
                   Inl f \<Rightarrow> Inl f
                 | Inr v \<Rightarrow> Inr (s\<lparr>unfinishedEvent := Some (u\<lparr>evData := Trim v (CHR '' '')\<rparr>)\<rparr>))
              else Inr (s\<lparr>unfinishedEvent := Some u\<rparr>))"

text \<open>
  \<open>processRaw\<close> (lines 148-190). The branch of the blank line returns only when no
  event is pending; after the fan-out it falls through to line 170 with the mutex held,
  and the deferred \<open>Unlock\<close> runs when the function returns.
\<close>

definition processRaw :: "string \<Rightarrow> SSEFeed \<Rightarrow> fault + SSEFeed" where
  "processRaw b s =
     (if b = [LF] then
        (case Lock s of
           Inl f \<Rightarrow> Inl f
         | Inr s1 \<Rightarrow>
             (case unfinishedEvent s1 of
                None \<Rightarrow> Inr (Unlock s1)
              | Some u \<Rightarrow>
                  let evt = \<lparr>evId = evId u, evEvent = evEvent u, evData = evData u\<rparr>;
                      s2 = s1\<lparr>unfinishedEvent := None\<rparr>
                  in
                    (case deliver evt (subscriptions s2) of
                       Inl f \<Rightarrow> Inl f
                     | Inr subs \<Rightarrow>
                         map_sum id Unlock (processField b (s2\<lparr>subscriptions := subs\<rparr>)))))
      else processField b s)"

subsection \<open>Stream errors and the read loop\<close>

text \<open>The loop of \<open>error\<close> (lines 196-198).\<close>

fun sendErrors ::
  "string \<Rightarrow> (string \<times> Subscription) list \<Rightarrow> fault + (string \<times> Subscription) list" where
  "sendErrors err [] = Inr []"
| "sendErrors err ((k, subscription) # rest) =
     (case send err (errFeed subscription) of
        Inl f \<Rightarrow> Inl f
      | Inr c \<Rightarrow>
          (case sendErrors err rest of
             Inl f \<Rightarrow> Inl f
           | Inr rest' \<Rightarrow> Inr ((k, subscription\<lparr>errFeed := c\<rparr>) # rest')))"

text \<open>
  \<open>error\<close> (lines 192-201) takes the mutex, sends the error to every subscription and
  calls \<open>Close\<close> with the mutex still held; the deferred \<open>Unlock\<close> runs on return.
\<close>

definition error :: "string \<Rightarrow> SSEFeed \<Rightarrow> fault + SSEFeed" where
  "error err s =
     (case Lock s of
        Inl f \<Rightarrow> Inl f
      | Inr s1 \<Rightarrow>
          (case sendErrors err (subscriptions s1) of
             Inl f \<Rightarrow> Inl f
           | Inr subs \<Rightarrow> map_sum id Unlock (Close (s1\<lparr>subscriptions := subs\<rparr>))))"

text \<open>
  The read loop of \<open>ConnectWithSSEFeed\<close> (lines 80-98) over the results of the successive
  calls of \<open>reader.ReadBytes\<close>: the bytes read and the error, \<open>None\<close> for nil. The loop
  ends when the stop channel is closed or after a fatal error; the model also ends it
  when the list of results is used up.
\<close>

datatype read_error = EOF | ReadError string

fun readLoop :: "(string \<times> read_error option) list \<Rightarrow> SSEFeed \<Rightarrow> fault + SSEFeed" where
  "readLoop [] s = Inr s"
| "readLoop ((b, err) # reads) s =
     (if chan_closed (stopChan s) then Inr s
      else
        case err of
          Some (ReadError e) \<Rightarrow> error e s
        | _ \<Rightarrow>
            if length b = 0 then readLoop reads s
            else
              (case processRaw b s of
                 Inl f \<Rightarrow> Inl f
               | Inr s' \<Rightarrow> readLoop reads s'))"

subsection \<open>Notions used to state the properties\<close>

text \<open>
  The trim that the specification describes, written from its words and used only to
  compare with \<open>Trim\<close>: at most one leading and at most one trailing space are removed.
\<close>

definition spec_trim_single_space :: "string \<Rightarrow> string" where
  "spec_trim_single_space v =
     (let v1 = (case v of [] \<Rightarrow> [] | c # r \<Rightarrow> if c = CHR '' '' then r else v)
      in if v1 \<noteq> [] \<and> last v1 = CHR '' '' then butlast v1 else v1)"

text \<open>
  A line of a record as the reader hands it to \<open>processRaw\<close>, given by the text before
  the first colon and, when the line has a colon, the text after it: \<open>name:value\<close> or
  \<open>name\<close>, and the newline. A comment line is a line with the empty name.
\<close>

definition recordLine :: "string \<times> string option \<Rightarrow> string" where
  "recordLine l = fst l @ (case snd l of None \<Rightarrow> [] | Some v \<Rightarrow> '':'' @ v) @ [LF]"

text \<open>
  The lines 173-189 of \<open>processRaw\<close> on a sequence of such lines that have a colon or a
  name that the switch does not know: what the pending event \<open>p\<close> has become after them.
  A line with the empty name returns at line 173; any other line creates the pending event
  when there is none (lines 178-180); \<open>id\<close>, \<open>event\<close> and \<open>data\<close> assign their field.
\<close>

fun pendingAfter ::
  "StringEvent option \<Rightarrow> (string \<times> string option) list \<Rightarrow> StringEvent option" where
  "pendingAfter p [] = p"
| "pendingAfter p ((name, val) # ls) =
     pendingAfter
       (if name = [] then p
        else
          let u = (case p of None \<Rightarrow> emptyEvent | Some u \<Rightarrow> u) in
          Some (case val of
                  None \<Rightarrow> u
                | Some v \<Rightarrow>
                    if name = ''id'' then u\<lparr>evId := Trim v (CHR '' '')\<rparr>
                    else if name = ''event'' then u\<lparr>evEvent := Trim v (CHR '' '')\<rparr>
                    else if name = ''data'' then u\<lparr>evData := Trim v (CHR '' '')\<rparr>
                    else u)) ls"

section \<open>Properties\<close>

subsection \<open>Auxiliary facts\<close>

lemma map_sum_id_Inr: "map_sum id f x = Inr y \<longleftrightarrow> (\<exists>z. x = Inr z \<and> y = f z)"
  by (cases x) auto

lemma closeSubscription_closed:
  "closeSubscription i s = Inr (s', ok) \<Longrightarrow> closed s' = closed s"
  by (auto simp: closeSubscription_def Lock_def Unlock_def close_chan_def
      split: if_splits option.splits sum.splits)

lemma closeSubscriptions_closed:
  "closeSubscriptions ids s = Inr s' \<Longrightarrow> closed s' = closed s"
proof (induction ids arbitrary: s)
  case Nil
  then show ?case by simp
next
  case (Cons i ids)
  then show ?case
    by (auto split: sum.splits dest: closeSubscription_closed)
qed

lemma processField_closed:
  "processField b s = Inr s' \<Longrightarrow> closed s' = closed s"
  by (auto simp: processField_def Let_def split: list.splits if_splits sum.splits)

lemma processRaw_closed:
  "processRaw b s = Inr s' \<Longrightarrow> closed s' = closed s"
  by (auto simp: processRaw_def Lock_def Unlock_def Let_def map_sum_id_Inr
      split: if_splits option.splits sum.splits dest!: processField_closed)

lemma Subscribe_closed:
  "Subscribe evType uuid s = Inr (s', r) \<Longrightarrow> closed s' = closed s"
  by (auto simp: Subscribe_def Lock_def Unlock_def Let_def split: if_splits)

lemma Close_closed: "Close s = Inr s' \<Longrightarrow> closed s'"
  by (auto simp: Close_def split: if_splits sum.splits)

lemma error_closed: "error e s = Inr s' \<Longrightarrow> closed s'"
  by (auto simp: error_def Lock_def Unlock_def map_sum_id_Inr
      split: if_splits sum.splits dest!: Close_closed)

text \<open>The parser on a line \<open>name:value\<close>, and the fan-out.\<close>

lemma LF_neq_colon: "LF \<noteq> CHR '':''" "CHR '':'' \<noteq> LF"
  by (simp_all add: LF_def)

lemma trimRightByte_snoc: "trimRightByte (xs @ [c]) c = trimRightByte xs c"
  by (simp add: trimRightByte_def)

lemma trimRightByte_id: "xs = [] \<or> last xs \<noteq> c \<Longrightarrow> trimRightByte xs c = xs"
  by (cases xs rule: rev_cases) (simp_all add: trimRightByte_def)

lemma trimLeftByte_id: "xs = [] \<or> hd xs \<noteq> c \<Longrightarrow> trimLeftByte xs c = xs"
  by (cases xs) (simp_all add: trimLeftByte_def)

lemma Trim_id: "xs = [] \<or> (hd xs \<noteq> c \<and> last xs \<noteq> c) \<Longrightarrow> Trim xs c = xs"
  by (auto simp: Trim_def trimRightByte_id trimLeftByte_id)

lemma TrimRight_line:
  assumes "LF \<notin> set v"
  shows "TrimRight (name @ CHR '':'' # v @ [LF]) LF = name @ CHR '':'' # v"
proof -
  have "last (name @ CHR '':'' # v) \<noteq> LF"
    using assms LF_neq_colon by (cases v rule: rev_cases) auto
  then have "trimRightByte (name @ CHR '':'' # v) LF = name @ CHR '':'' # v"
    by (simp add: trimRightByte_id)
  moreover have "name @ CHR '':'' # v @ [LF] = (name @ CHR '':'' # v) @ [LF]"
    by simp
  ultimately show ?thesis
    unfolding TrimRight_def by (simp only: trimRightByte_snoc)
qed

lemma SplitN_colon:
  "CHR '':'' \<notin> set name \<Longrightarrow> SplitN (name @ CHR '':'' # v) (CHR '':'') = [name, v]"
proof -
  assume "CHR '':'' \<notin> set name"
  then have "takeWhile (\<lambda>x. x \<noteq> CHR '':'') (name @ CHR '':'' # v) = name"
    and "dropWhile (\<lambda>x. x \<noteq> CHR '':'') (name @ CHR '':'' # v) = CHR '':'' # v"
    by (induction name) auto
  then show ?thesis
    by (simp add: SplitN_def)
qed

lemma processField_id:
  assumes "LF \<notin> set v"
  shows "processField (''id:'' @ v @ [LF]) s =
    Inr (s\<lparr>unfinishedEvent :=
      Some ((case unfinishedEvent s of None \<Rightarrow> emptyEvent | Some u \<Rightarrow> u)\<lparr>evId := Trim v (CHR '' '')\<rparr>)\<rparr>)"
proof -
  have "TrimRight (''id'' @ CHR '':'' # v @ [LF]) LF = ''id'' @ CHR '':'' # v"
    using assms by (rule TrimRight_line)
  moreover have "SplitN (''id'' @ CHR '':'' # v) (CHR '':'') = [''id'', v]"
    by (rule SplitN_colon) simp
  ultimately show ?thesis
    by (simp add: processField_def index_def)
qed

lemma processField_event:
  assumes "LF \<notin> set v"
  shows "processField (''event:'' @ v @ [LF]) s =
    Inr (s\<lparr>unfinishedEvent :=
      Some ((case unfinishedEvent s of None \<Rightarrow> emptyEvent | Some u \<Rightarrow> u)\<lparr>evEvent := Trim v (CHR '' '')\<rparr>)\<rparr>)"
proof -
  have "TrimRight (''event'' @ CHR '':'' # v @ [LF]) LF = ''event'' @ CHR '':'' # v"
    using assms by (rule TrimRight_line)
  moreover have "SplitN (''event'' @ CHR '':'' # v) (CHR '':'') = [''event'', v]"
    by (rule SplitN_colon) simp
  ultimately show ?thesis
    by (simp add: processField_def index_def)
qed

lemma processField_data:
  assumes "LF \<notin> set v"
  shows "processField (''data:'' @ v @ [LF]) s =
    Inr (s\<lparr>unfinishedEvent :=
      Some ((case unfinishedEvent s of None \<Rightarrow> emptyEvent | Some u \<Rightarrow> u)\<lparr>evData := Trim v (CHR '' '')\<rparr>)\<rparr>)"
proof -
  have "TrimRight (''data'' @ CHR '':'' # v @ [LF]) LF = ''data'' @ CHR '':'' # v"
    using assms by (rule TrimRight_line)
  moreover have "SplitN (''data'' @ CHR '':'' # v) (CHR '':'') = [''data'', v]"
    by (rule SplitN_colon) simp
  ultimately show ?thesis
    by (simp add: processField_def index_def)
qed

lemma processField_blank: "processField [LF] s = Inr s"
  by (simp add: processField_def TrimRight_def trimRightByte_def SplitN_def)

lemma deliver_open:
  "\<forall>(k, sub) \<in> set subs. (eventType sub = [] \<or> eventType sub = evEvent evt) \<longrightarrow> \<not> chan_closed (feed sub) \<Longrightarrow>
   deliver evt subs =
     Inr (map (\<lambda>(k, sub). (k, if eventType sub = [] \<or> eventType sub = evEvent evt
                                then sub\<lparr>feed := (feed sub)\<lparr>sent := sent (feed sub) @ [evt]\<rparr>\<rparr>
                                else sub)) subs)"
  by (induction subs) (auto simp: send_def)

lemma deliver_closed:
  "\<exists>(k, sub) \<in> set subs. (eventType sub = [] \<or> eventType sub = evEvent evt) \<and> chan_closed (feed sub) \<Longrightarrow>
   deliver evt subs = Inl SendOnClosedChannel"
proof (induction evt subs rule: deliver.induct)
  case (1 evt)
  then show ?case by simp
next
  case (2 evt k subscription rest)
  show ?case
  proof (cases "(eventType subscription = [] \<or> eventType subscription = evEvent evt) \<and>
      chan_closed (feed subscription)")
    case True
    then show ?thesis by (auto simp: send_def)
  next
    case False
    with 2(3) have "\<exists>(k, sub) \<in> set rest. (eventType sub = [] \<or> eventType sub = evEvent evt) \<and>
        chan_closed (feed sub)"
      by auto
    with 2(1,2) False show ?thesis
      by (auto simp: send_def split: sum.splits)
  qed
qed

lemma StringEvent_eta: "\<lparr>evId = evId u, evEvent = evEvent u, evData = evData u\<rparr> = u"
  by (cases u) simp

lemma processRaw_blank:
  assumes "\<not> subscriptionsMtx s" and "unfinishedEvent s = Some u"
    and "\<forall>(k, sub) \<in> set (subscriptions s). (eventType sub = [] \<or> eventType sub = evEvent u) \<longrightarrow> \<not> chan_closed (feed sub)"
  shows "processRaw [LF] s =
     Inr (s\<lparr>unfinishedEvent := None,
            subscriptions := map (\<lambda>(k, sub). (k, if eventType sub = [] \<or> eventType sub = evEvent u
                                then sub\<lparr>feed := (feed sub)\<lparr>sent := sent (feed sub) @ [u]\<rparr>\<rparr>
                                else sub)) (subscriptions s)\<rparr>)"
proof -
  have "deliver u (subscriptions s) =
     Inr (map (\<lambda>(k, sub). (k, if eventType sub = [] \<or> eventType sub = evEvent u
                                then sub\<lparr>feed := (feed sub)\<lparr>sent := sent (feed sub) @ [u]\<rparr>\<rparr>
                                else sub)) (subscriptions s))"
    using assms(3) by (rule deliver_open)
  then show ?thesis
    using assms(1,2)
    by (simp add: processRaw_def Lock_def Unlock_def processField_blank StringEvent_eta)
qed

lemma processRaw_id:
  "LF \<notin> set v \<Longrightarrow> processRaw (''id:'' @ v @ [LF]) s =
    Inr (s\<lparr>unfinishedEvent :=
      Some ((case unfinishedEvent s of None \<Rightarrow> emptyEvent | Some u \<Rightarrow> u)\<lparr>evId := Trim v (CHR '' '')\<rparr>)\<rparr>)"
  using processField_id [of v s] by (simp add: processRaw_def)

lemma processRaw_event:
  "LF \<notin> set v \<Longrightarrow> processRaw (''event:'' @ v @ [LF]) s =
    Inr (s\<lparr>unfinishedEvent :=
      Some ((case unfinishedEvent s of None \<Rightarrow> emptyEvent | Some u \<Rightarrow> u)\<lparr>evEvent := Trim v (CHR '' '')\<rparr>)\<rparr>)"
  using processField_event [of v s] by (simp add: processRaw_def)

lemma processRaw_data:
  "LF \<notin> set v \<Longrightarrow> processRaw (''data:'' @ v @ [LF]) s =
    Inr (s\<lparr>unfinishedEvent :=
      Some ((case unfinishedEvent s of None \<Rightarrow> emptyEvent | Some u \<Rightarrow> u)\<lparr>evData := Trim v (CHR '' '')\<rparr>)\<rparr>)"
  using processField_data [of v s] by (simp add: processRaw_def)

text \<open>What \<open>Trim\<close> removes is a block of spaces at each end, and all of it.\<close>

lemma Trim_spaces:
  "\<exists>n m. v = replicate n c @ Trim v c @ replicate m c \<and>
     (Trim v c = [] \<or> (hd (Trim v c) \<noteq> c \<and> last (Trim v c) \<noteq> c))"
proof -
  let ?P = "\<lambda>x. x = c"
  let ?r = "trimRightByte v c"
  let ?w = "Trim v c"
  have tw: "takeWhile ?P xs = replicate (length (takeWhile ?P xs)) c" for xs :: string
    by (induction xs) auto
  have "rev v = takeWhile ?P (rev v) @ dropWhile ?P (rev v)"
    by simp
  then have "v = ?r @ rev (takeWhile ?P (rev v))"
    unfolding trimRightByte_def by (metis rev_append rev_rev_ident)
  moreover have "rev (takeWhile ?P (rev v)) = replicate (length (takeWhile ?P (rev v))) c"
    using tw [of "rev v"] by (metis rev_replicate)
  ultimately have v: "v = ?r @ replicate (length (takeWhile ?P (rev v))) c"
    by simp
  have "?r = takeWhile ?P ?r @ ?w"
    by (simp add: Trim_def trimLeftByte_def)
  then have r: "?r = replicate (length (takeWhile ?P ?r)) c @ ?w"
    using tw [of ?r] by simp
  have hd: "?w \<noteq> [] \<Longrightarrow> hd ?w \<noteq> c"
    unfolding Trim_def trimLeftByte_def using hd_dropWhile [of ?P ?r] by simp
  have lastr: "?r \<noteq> [] \<Longrightarrow> last ?r \<noteq> c"
    unfolding trimRightByte_def using hd_dropWhile [of ?P "rev v"] by (simp add: last_rev)
  have "?w \<noteq> [] \<Longrightarrow> last ?w \<noteq> c"
  proof -
    assume ne: "?w \<noteq> []"
    with r have "last ?r = last ?w" by (metis last_appendR)
    moreover from ne r have "?r \<noteq> []" by auto
    ultimately show ?thesis using lastr by simp
  qed
  with hd v r show ?thesis
    by (metis append.assoc)
qed

text \<open>A run of lines of one record through the read loop.\<close>

lemma SplitN_no_colon: "CHR '':'' \<notin> set b \<Longrightarrow> SplitN b (CHR '':'') = [b]"
  by (simp add: SplitN_def)

lemma processRaw_bare_line:
  assumes "name \<noteq> []" and "LF \<notin> set name" and "CHR '':'' \<notin> set name"
    and "name \<notin> {''id'', ''event'', ''data''}"
  shows "processRaw (name @ [LF]) s =
    Inr (s\<lparr>unfinishedEvent :=
      Some (case unfinishedEvent s of None \<Rightarrow> emptyEvent | Some u \<Rightarrow> u)\<rparr>)"
proof -
  have "last name \<noteq> LF"
    using assms(1,2) by (metis last_in_set)
  then have "TrimRight (name @ [LF]) LF = name"
    unfolding TrimRight_def by (simp only: trimRightByte_snoc) (simp add: trimRightByte_id)
  moreover have "SplitN name (CHR '':'') = [name]"
    using assms(3) by (rule SplitN_no_colon)
  moreover have "name @ [LF] \<noteq> [LF]"
    using assms(1) by simp
  ultimately show ?thesis
    using assms(1,4) by (simp add: processRaw_def processField_def)
qed

lemma processField_parsed:
  assumes "TrimRight b LF = p" and "SplitN p (CHR '':'') = [name, v]"
  shows "processField b s =
    (if name = [] then Inr s
     else Inr (s\<lparr>unfinishedEvent := Some (
       let u = (case unfinishedEvent s of None \<Rightarrow> emptyEvent | Some u \<Rightarrow> u) in
       if name = ''id'' then u\<lparr>evId := Trim v (CHR '' '')\<rparr>
       else if name = ''event'' then u\<lparr>evEvent := Trim v (CHR '' '')\<rparr>
       else if name = ''data'' then u\<lparr>evData := Trim v (CHR '' '')\<rparr>
       else u)\<rparr>))"
  using assms by (simp add: processField_def index_def Let_def)

lemma processRaw_field_line:
  assumes "CHR '':'' \<notin> set name" and "LF \<notin> set v"
  shows "processRaw (name @ '':'' @ v @ [LF]) s =
    (if name = [] then Inr s
     else Inr (s\<lparr>unfinishedEvent := Some (
       let u = (case unfinishedEvent s of None \<Rightarrow> emptyEvent | Some u \<Rightarrow> u) in
       if name = ''id'' then u\<lparr>evId := Trim v (CHR '' '')\<rparr>
       else if name = ''event'' then u\<lparr>evEvent := Trim v (CHR '' '')\<rparr>
       else if name = ''data'' then u\<lparr>evData := Trim v (CHR '' '')\<rparr>
       else u)\<rparr>))"
proof -
  have 1: "TrimRight (name @ CHR '':'' # v @ [LF]) LF = name @ CHR '':'' # v"
    using assms(2) by (rule TrimRight_line)
  have 2: "SplitN (name @ CHR '':'' # v) (CHR '':'') = [name, v]"
    using assms(1) by (rule SplitN_colon)
  have "name @ CHR '':'' # v @ [LF] \<noteq> [LF]"
    by (cases name) simp_all
  then have "processRaw (name @ CHR '':'' # v @ [LF]) s = processField (name @ CHR '':'' # v @ [LF]) s"
    by (simp add: processRaw_def)
  then show ?thesis
    using processField_parsed [OF 1 2, of s] by simp
qed

lemma processRaw_recordLine:
  assumes "CHR '':'' \<notin> set name"
    and "case val of Some v \<Rightarrow> LF \<notin> set v
         | None \<Rightarrow> name \<noteq> [] \<and> LF \<notin> set name \<and> name \<notin> {''id'', ''event'', ''data''}"
  shows "processRaw (recordLine (name, val)) s =
     Inr (s\<lparr>unfinishedEvent := pendingAfter (unfinishedEvent s) [(name, val)]\<rparr>)"
proof (cases val)
  case None
  with assms show ?thesis
    using processRaw_bare_line [of name s] by (simp add: recordLine_def)
next
  case (Some v)
  with assms have "LF \<notin> set v" by simp
  from processRaw_field_line [OF assms(1) this, of s] Some show ?thesis
    by (simp add: recordLine_def Let_def)
qed

lemma pendingAfter_append:
  "pendingAfter p (xs @ ys) = pendingAfter (pendingAfter p xs) ys"
  by (induction p xs rule: pendingAfter.induct) simp_all

lemma readLoop_recordLines:
  assumes "\<forall>(name, val) \<in> set ls. CHR '':'' \<notin> set name \<and>
      (case val of Some v \<Rightarrow> LF \<notin> set v
       | None \<Rightarrow> name \<noteq> [] \<and> LF \<notin> set name \<and> name \<notin> {''id'', ''event'', ''data''})"
    and "\<not> chan_closed (stopChan s)"
  shows "readLoop (map (\<lambda>l. (recordLine l, None)) ls @ rest) s =
     readLoop rest (s\<lparr>unfinishedEvent := pendingAfter (unfinishedEvent s) ls\<rparr>)"
  using assms
proof (induction ls arbitrary: s)
  case Nil
  then show ?case by simp
next
  case (Cons l ls)
  obtain name val where l: "l = (name, val)" by (cases l)
  let ?s1 = "s\<lparr>unfinishedEvent := pendingAfter (unfinishedEvent s) [(name, val)]\<rparr>"
  have step: "processRaw (recordLine (name, val)) s = Inr ?s1"
    by (rule processRaw_recordLine) (use Cons.prems(1) l in auto)
  have ne: "recordLine (name, val) \<noteq> []"
    by (simp add: recordLine_def)
  have "readLoop (map (\<lambda>l. (recordLine l, None)) ls @ rest) ?s1 =
     readLoop rest (?s1\<lparr>unfinishedEvent := pendingAfter (unfinishedEvent ?s1) ls\<rparr>)"
    by (rule Cons.IH) (use Cons.prems in auto)
  moreover have "pendingAfter (unfinishedEvent ?s1) ls = pendingAfter (unfinishedEvent s) ((name, val) # ls)"
    by (simp del: pendingAfter.simps add: pendingAfter_append [of _ "[(name, val)]" ls, simplified])
  ultimately show ?case
    using step ne Cons.prems(2) l by (simp del: pendingAfter.simps)
qed

lemma pendingAfter_not_None: "pendingAfter (Some u) ls \<noteq> None"
  by (induction ls arbitrary: u) (auto simp: Let_def)

lemma pendingAfter_keeps_evId:
  "pendingAfter (Some u) ls = Some e \<Longrightarrow> ''id'' \<notin> fst ` set ls \<Longrightarrow> evId e = evId u"
  by (induction ls arbitrary: u) (auto simp: Let_def split: option.splits if_splits)

lemma pendingAfter_keeps_evEvent:
  "pendingAfter (Some u) ls = Some e \<Longrightarrow> ''event'' \<notin> fst ` set ls \<Longrightarrow> evEvent e = evEvent u"
  by (induction ls arbitrary: u) (auto simp: Let_def split: option.splits if_splits)

lemma pendingAfter_keeps_evData:
  "pendingAfter (Some u) ls = Some e \<Longrightarrow> ''data'' \<notin> fst ` set ls \<Longrightarrow> evData e = evData u"
  by (induction ls arbitrary: u) (auto simp: Let_def split: option.splits if_splits)

lemma pendingAfter_last:
  assumes "name \<in> {''id'', ''event'', ''data''}" and "name \<notin> fst ` set post"
  shows "\<exists>evt. pendingAfter p (pre @ (name, Some v) # post) = Some evt \<and>
     (name = ''id'' \<longrightarrow> evId evt = Trim v (CHR '' '')) \<and>
     (name = ''event'' \<longrightarrow> evEvent evt = Trim v (CHR '' '')) \<and>
     (name = ''data'' \<longrightarrow> evData evt = Trim v (CHR '' ''))"
proof -
  let ?u = "case pendingAfter p pre of None \<Rightarrow> emptyEvent | Some u \<Rightarrow> u"
  let ?u' = "if name = ''id'' then ?u\<lparr>evId := Trim v (CHR '' '')\<rparr>
     else if name = ''event'' then ?u\<lparr>evEvent := Trim v (CHR '' '')\<rparr>
     else ?u\<lparr>evData := Trim v (CHR '' '')\<rparr>"
  have "pendingAfter p (pre @ (name, Some v) # post) =
      pendingAfter (pendingAfter (pendingAfter p pre) [(name, Some v)]) post"
    using pendingAfter_append [of p pre "(name, Some v) # post"]
      pendingAfter_append [of "pendingAfter p pre" "[(name, Some v)]" post]
    by simp
  moreover have "pendingAfter (pendingAfter p pre) [(name, Some v)] = Some ?u'"
    using assms(1) by (auto simp: Let_def)
  ultimately have eq: "pendingAfter p (pre @ (name, Some v) # post) = pendingAfter (Some ?u') post"
    by simp
  obtain evt where evt: "pendingAfter (Some ?u') post = Some evt"
    using pendingAfter_not_None [of ?u' post] by auto
  have "name = ''id'' \<longrightarrow> evId evt = Trim v (CHR '' '')"
    using pendingAfter_keeps_evId [OF evt] assms(2) by auto
  moreover have "name = ''event'' \<longrightarrow> evEvent evt = Trim v (CHR '' '')"
    using pendingAfter_keeps_evEvent [OF evt] assms(2) by auto
  moreover have "name = ''data'' \<longrightarrow> evData evt = Trim v (CHR '' '')"
    using pendingAfter_keeps_evData [OF evt] assms(2) by auto
  ultimately show ?thesis
    using eq evt by simp
qed

lemma processRaw_blank_pending:
  assumes "unfinishedEvent s = Some u"
  shows "processRaw [LF] s =
     (if subscriptionsMtx s then Inl BlockedOnMutex
      else case deliver u (subscriptions s) of
             Inl f \<Rightarrow> Inl f
           | Inr subs \<Rightarrow> Inr (s\<lparr>unfinishedEvent := None, subscriptions := subs\<rparr>))"
  using assms
  by (simp add: processRaw_def Lock_def Unlock_def processField_blank StringEvent_eta
      split: sum.splits)

text \<open>
  The record \<open>id:I\<close>, \<open>event:E\<close>, \<open>data:D\<close> and a blank line, when the mutex is free and
  the subscriptions that the event is sent to have an open delivery channel: each of them
  is sent the one event, the others are left as they were.
\<close>

lemma readLoop_record_open:
  assumes free: "\<not> subscriptionsMtx s" and running: "\<not> chan_closed (stopChan s)"
    and lines: "LF \<notin> set I" "LF \<notin> set E" "LF \<notin> set D"
    and trimmed: "I = [] \<or> (hd I \<noteq> CHR '' '' \<and> last I \<noteq> CHR '' '')"
      "E = [] \<or> (hd E \<noteq> CHR '' '' \<and> last E \<noteq> CHR '' '')"
      "D = [] \<or> (hd D \<noteq> CHR '' '' \<and> last D \<noteq> CHR '' '')"
    and "open": "\<forall>(k, sub) \<in> set (subscriptions s).
        (eventType sub = [] \<or> eventType sub = E) \<longrightarrow> \<not> chan_closed (feed sub)"
  shows "readLoop [(''id:'' @ I @ [LF], None), (''event:'' @ E @ [LF], None),
                   (''data:'' @ D @ [LF], None), ([LF], None)] s =
     Inr (s\<lparr>unfinishedEvent := None,
            subscriptions := map (\<lambda>(k, sub).
              (k, if eventType sub = [] \<or> eventType sub = E
                  then sub\<lparr>feed := (feed sub)\<lparr>sent := sent (feed sub) @
                         [\<lparr>evId = I, evEvent = E, evData = D\<rparr>]\<rparr>\<rparr>
                  else sub)) (subscriptions s)\<rparr>)"
proof -
  let ?u = "case unfinishedEvent s of None \<Rightarrow> emptyEvent | Some u \<Rightarrow> u"
  let ?evt = "\<lparr>evId = I, evEvent = E, evData = D\<rparr>"
  let ?s1 = "s\<lparr>unfinishedEvent := Some (?u\<lparr>evId := I\<rparr>)\<rparr>"
  let ?s2 = "s\<lparr>unfinishedEvent := Some (?u\<lparr>evId := I, evEvent := E\<rparr>)\<rparr>"
  let ?s3 = "s\<lparr>unfinishedEvent := Some ?evt\<rparr>"
  have 1: "processRaw (''id:'' @ I @ [LF]) s = Inr ?s1"
    using processRaw_id [OF lines(1), of s] Trim_id [OF trimmed(1)] by simp
  have 2: "processRaw (''event:'' @ E @ [LF]) ?s1 = Inr ?s2"
    using processRaw_event [OF lines(2), of ?s1] Trim_id [OF trimmed(2)] by simp
  have "?u\<lparr>evId := I, evEvent := E, evData := D\<rparr> = ?evt"
    by (cases ?u) simp
  then have 3: "processRaw (''data:'' @ D @ [LF]) ?s2 = Inr ?s3"
    using processRaw_data [OF lines(3), of ?s2] Trim_id [OF trimmed(3)] by simp
  have 4: "processRaw [LF] ?s3 =
     Inr (?s3\<lparr>unfinishedEvent := None,
            subscriptions := map (\<lambda>(k, sub).
              (k, if eventType sub = [] \<or> eventType sub = evEvent ?evt
                  then sub\<lparr>feed := (feed sub)\<lparr>sent := sent (feed sub) @ [?evt]\<rparr>\<rparr>
                  else sub)) (subscriptions ?s3)\<rparr>)"
    by (rule processRaw_blank) (use free "open" in auto)
  show ?thesis
    using running 4 by (simp add: 1 2 3 del: append.simps)
qed

text \<open>A subscription that is closed and still in the map stops the fan-out.\<close>

lemma processRaw_blank_closed:
  assumes "\<not> subscriptionsMtx s" and "unfinishedEvent s = Some u"
    and "\<exists>(k, sub) \<in> set (subscriptions s).
      (eventType sub = [] \<or> eventType sub = evEvent u) \<and> chan_closed (feed sub)"
  shows "processRaw [LF] s = Inl SendOnClosedChannel"
proof -
  have "deliver u (subscriptions s) = Inl SendOnClosedChannel"
    using assms(3) by (rule deliver_closed)
  then show ?thesis
    using assms(1,2) by (simp add: processRaw_def Lock_def StringEvent_eta)
qed

text \<open>
  \<open>error\<close> calls \<open>Close\<close> with the mutex held: it returns only on a feed without
  subscriptions.
\<close>

lemma sendErrors_open:
  "\<forall>(k, sub) \<in> set subs. \<not> chan_closed (errFeed sub) \<Longrightarrow>
   sendErrors e subs =
     Inr (map (\<lambda>(k, sub). (k, sub\<lparr>errFeed := (errFeed sub)\<lparr>sent := sent (errFeed sub) @ [e]\<rparr>\<rparr>)) subs)"
  by (induction subs) (auto simp: send_def)

lemma closeSubscriptions_locked:
  "subscriptionsMtx s \<Longrightarrow> ids \<noteq> [] \<Longrightarrow> closeSubscriptions ids s = Inl BlockedOnMutex"
  by (cases ids) (simp_all add: closeSubscription_def Lock_def)

lemma error_blocks:
  assumes "\<not> subscriptionsMtx s" and "\<not> closed s" and "\<not> chan_closed (stopChan s)"
    and "subscriptions s \<noteq> []"
    and "\<forall>(k, sub) \<in> set (subscriptions s). \<not> chan_closed (errFeed sub)"
  shows "error e s = Inl BlockedOnMutex"
proof -
  let ?subs = "map (\<lambda>(k, sub). (k, sub\<lparr>errFeed := (errFeed sub)\<lparr>sent := sent (errFeed sub) @ [e]\<rparr>\<rparr>))
    (subscriptions s)"
  let ?s1 = "s\<lparr>subscriptionsMtx := True, subscriptions := ?subs\<rparr>"
  have sent: "sendErrors e (subscriptions s) = Inr ?subs"
    using assms(5) by (rule sendErrors_open)
  have "closeSubscriptions (map fst ?subs)
      (?s1\<lparr>stopChan := (stopChan s)\<lparr>chan_closed := True\<rparr>\<rparr>) = Inl BlockedOnMutex"
    by (rule closeSubscriptions_locked) (use assms(4) in simp_all)
  then have "Close ?s1 = Inl BlockedOnMutex"
    using assms(2,3) by (simp add: Close_def close_chan_def)
  then show ?thesis
    using assms(1) sent by (simp add: error_def Lock_def)
qed

lemma error_without_subscribers:
  assumes "\<not> subscriptionsMtx s" and "\<not> closed s" and "\<not> chan_closed (stopChan s)"
    and "subscriptions s = []"
  shows "error e s = Inr (s\<lparr>stopChan := (stopChan s)\<lparr>chan_closed := True\<rparr>, closed := True\<rparr>)"
  using assms
  by (simp add: error_def Lock_def Unlock_def Close_def close_chan_def)

subsection \<open>Lines without a colon\<close>

text \<open>
  C2. The claim is that \<open>processRaw\<close> never fails on a malformed line, a line without a
  colon such as \<open>data\<close> included. On that line \<open>SplitN\<close> returns a slice of length one,
  the switch takes the case \<open>data\<close> and reads \<open>split[1]\<close>: the call panics with an
  index out of range.
\<close>

theorem processRaw_data_without_colon_panics:
  "processRaw (''data'' @ [LF]) newFeed = Inl IndexOutOfRange"
  by (simp add: processRaw_def processField_def newFeed_def LF_def TrimRight_def
      trimRightByte_def SplitN_def index_def)

subsection \<open>Subscribing to a closed feed\<close>

text \<open>
  C7. Whenever the closed flag of the feed is set, \<open>Subscribe\<close> returns no handle and
  an error, and the feed it leaves is the feed it was given: the map of subscriptions, the
  pending event and every other field are unchanged.
\<close>

theorem Subscribe_closed_rejected:
  "closed s \<Longrightarrow> Subscribe evType uuid s = Inr (s, None, Some ''sse feed closed'')"
  by (simp add: Subscribe_def)

theorem Subscribe_closed_rejected_witness:
  "closed (newFeed\<lparr>closed := True\<rparr>) \<and>
   Subscribe ''greeting'' ''sub-1'' (newFeed\<lparr>closed := True\<rparr>) =
     Inr (newFeed\<lparr>closed := True\<rparr>, None, Some ''sse feed closed'')"
proof -
  have h: "closed (newFeed\<lparr>closed := True\<rparr>)" by simp
  show ?thesis
    using h Subscribe_closed_rejected [OF h, of "''greeting''" "''sub-1''"] by simp
qed

subsection \<open>The closed flag\<close>

text \<open>
  C8. The closed flag only ever goes from false to true. \<open>Subscribe\<close>, \<open>processRaw\<close>
  and \<open>closeSubscription\<close> return a feed with the flag as they found it; \<open>error\<close> and
  \<open>Close\<close>, when they return, return a feed with the flag set; and \<open>Close\<close> on a feed
  whose flag is set returns that feed unchanged.
\<close>

theorem closed_flag_one_way:
  "(Subscribe evType uuid s = Inr (s1, r) \<longrightarrow> closed s1 = closed s) \<and>
   (processRaw b s = Inr s2 \<longrightarrow> closed s2 = closed s) \<and>
   (closeSubscription i s = Inr (s3, ok) \<longrightarrow> closed s3 = closed s) \<and>
   (error e s = Inr s4 \<longrightarrow> closed s4) \<and>
   (Close s = Inr s5 \<longrightarrow> closed s5) \<and>
   (closed s \<longrightarrow> Close s = Inr s)"
proof (intro conjI impI)
  show "Subscribe evType uuid s = Inr (s1, r) \<Longrightarrow> closed s1 = closed s"
    by (rule Subscribe_closed)
  show "processRaw b s = Inr s2 \<Longrightarrow> closed s2 = closed s"
    by (rule processRaw_closed)
  show "closeSubscription i s = Inr (s3, ok) \<Longrightarrow> closed s3 = closed s"
    by (rule closeSubscription_closed)
  show "error e s = Inr s4 \<Longrightarrow> closed s4"
    by (rule error_closed)
  show "Close s = Inr s5 \<Longrightarrow> closed s5"
    by (rule Close_closed)
  show "closed s \<Longrightarrow> Close s = Inr s"
    by (simp add: Close_def)
qed

theorem closed_flag_one_way_witness:
  "Close newFeed = Inr (newFeed\<lparr>stopChan := make_chan\<lparr>chan_closed := True\<rparr>, closed := True\<rparr>) \<and>
   (let cf = newFeed\<lparr>stopChan := make_chan\<lparr>chan_closed := True\<rparr>, closed := True\<rparr> in
    closed cf \<and>
    Subscribe [] ''sub-1'' cf = Inr (cf, None, Some ''sse feed closed'') \<and>
    processRaw (''id:1'' @ [LF]) cf = Inr (cf\<lparr>unfinishedEvent := Some (emptyEvent\<lparr>evId := ''1''\<rparr>)\<rparr>) \<and>
    closed (cf\<lparr>unfinishedEvent := Some (emptyEvent\<lparr>evId := ''1''\<rparr>)\<rparr>) \<and>
    closeSubscription ''sub-1'' cf = Inr (cf, False) \<and>
    error ''reset'' cf = Inr cf \<and>
    Close cf = Inr cf)"
  using closed_flag_one_way [of "[]" "''sub-1''"
      "newFeed\<lparr>stopChan := make_chan\<lparr>chan_closed := True\<rparr>, closed := True\<rparr>"
      "newFeed\<lparr>stopChan := make_chan\<lparr>chan_closed := True\<rparr>, closed := True\<rparr>"
      "(None, Some ''sse feed closed'')"
      "''id:1'' @ [LF]"
      "newFeed\<lparr>stopChan := make_chan\<lparr>chan_closed := True\<rparr>, closed := True,
         unfinishedEvent := Some (emptyEvent\<lparr>evId := ''1''\<rparr>)\<rparr>"
      "''sub-1''"
      "newFeed\<lparr>stopChan := make_chan\<lparr>chan_closed := True\<rparr>, closed := True\<rparr>"
      False "''reset''"
      "newFeed\<lparr>stopChan := make_chan\<lparr>chan_closed := True\<rparr>, closed := True\<rparr>"
      "newFeed\<lparr>stopChan := make_chan\<lparr>chan_closed := True\<rparr>, closed := True\<rparr>"]
  by (simp add: Let_def Close_def newFeed_def make_chan_def close_chan_def Subscribe_def
      processRaw_def processField_def LF_def TrimRight_def trimRightByte_def SplitN_def index_def
      Trim_def trimLeftByte_def emptyEvent_def closeSubscription_def Lock_def Unlock_def
      error_def)

subsection \<open>Closing a subscription twice\<close>

text \<open>
  C9, as stated: a second \<open>Subscription.Close\<close> finds the entry again, returns true rather
  than false, and panics. On the feed with the one subscription \<open>sub-1\<close> the first
  \<open>closeSubscription\<close> returns true and leaves the entry in the map. The second call
  panics at \<open>close(sub.feed)\<close> (line 142), before the \<open>return true\<close> of line 143: it
  returns no value, so it does not return true.
\<close>

theorem second_closeSubscription_returns_nothing:
  "(let sub = \<lparr>sub_id = ''sub-1'', eventType = [], feed = make_chan, errFeed = make_chan\<rparr>;
        s = newFeed\<lparr>subscriptions := [(''sub-1'', sub)]\<rparr>;
        s' = newFeed\<lparr>subscriptions := [(''sub-1'', sub\<lparr>feed := make_chan\<lparr>chan_closed := True\<rparr>\<rparr>)]\<rparr>
    in closeSubscription ''sub-1'' s = Inr (s', True) \<and>
       closeSubscription ''sub-1'' s' = Inl CloseOfClosedChannel \<and>
       (\<forall>s''. closeSubscription ''sub-1'' s' \<noteq> Inr (s'', True)))"
  by (simp add: Let_def newFeed_def make_chan_def close_chan_def closeSubscription_def
      Lock_def Unlock_def)

text \<open>
  C9, amended: \<open>closeSubscription\<close> closes the delivery channel of the subscription and
  leaves its entry in the map. For a registered subscription with an open channel the first
  \<open>Subscription.Close\<close> returns (\<open>closeSubscription\<close> returning true) with the entry still
  in the map, its channel now closed; the second call finds that entry, so it takes the
  branch of a registered id and not the one that returns false, closes the channel again,
  and panics before any value is returned.
\<close>

theorem Subscription_Close_twice_panics:
  assumes "\<not> subscriptionsMtx s"
    and "map_of (subscriptions s) (sub_id sub) = Some sub"
    and "\<not> chan_closed (feed sub)"
  shows "\<exists>s'. closeSubscription (sub_id sub) s = Inr (s', True) \<and>
     Subscription_Close sub s = Inr s' \<and>
     map_of (subscriptions s') (sub_id sub) = Some (sub\<lparr>feed := (feed sub)\<lparr>chan_closed := True\<rparr>\<rparr>) \<and>
     closeSubscription (sub_id sub) s' = Inl CloseOfClosedChannel \<and>
     (\<forall>s'' ok. closeSubscription (sub_id sub) s' \<noteq> Inr (s'', ok)) \<and>
     Subscription_Close sub s' = Inl CloseOfClosedChannel"
  using assms
  by (simp add: closeSubscription_def Subscription_Close_def Lock_def Unlock_def close_chan_def
      AList.update_conv')

theorem Subscription_Close_twice_panics_witness:
  "(let sub = \<lparr>sub_id = ''sub-1'', eventType = [], feed = make_chan, errFeed = make_chan\<rparr>;
        s = newFeed\<lparr>subscriptions := [(''sub-1'', sub)]\<rparr>;
        s' = newFeed\<lparr>subscriptions := [(''sub-1'', sub\<lparr>feed := make_chan\<lparr>chan_closed := True\<rparr>\<rparr>)]\<rparr>
    in Subscribe [] ''sub-1'' newFeed = Inr (s, Some sub, None) \<and>
       Subscription_Close sub s = Inr s' \<and>
       Subscription_Close sub s' = Inl CloseOfClosedChannel)"
proof -
  let ?sub = "\<lparr>sub_id = ''sub-1'', eventType = [], feed = make_chan, errFeed = make_chan\<rparr>"
  let ?s = "newFeed\<lparr>subscriptions := [(''sub-1'', ?sub)]\<rparr>"
  have h1: "\<not> subscriptionsMtx ?s" by (simp add: newFeed_def)
  have h2: "map_of (subscriptions ?s) (sub_id ?sub) = Some ?sub" by simp
  have h3: "\<not> chan_closed (feed ?sub)" by (simp add: make_chan_def)
  from Subscription_Close_twice_panics [OF h1 h2 h3]
  obtain s' where a: "closeSubscription (sub_id ?sub) ?s = Inr (s', True)"
    and b: "Subscription_Close ?sub ?s = Inr s'"
    and c: "Subscription_Close ?sub s' = Inl CloseOfClosedChannel"
    by blast
  have "Subscription_Close ?sub ?s =
     Inr (newFeed\<lparr>subscriptions := [(''sub-1'', ?sub\<lparr>feed := make_chan\<lparr>chan_closed := True\<rparr>\<rparr>)]\<rparr>)"
    by (simp add: Subscription_Close_def closeSubscription_def Lock_def Unlock_def
        close_chan_def newFeed_def make_chan_def)
  with b have "s' = newFeed\<lparr>subscriptions := [(''sub-1'', ?sub\<lparr>feed := make_chan\<lparr>chan_closed := True\<rparr>\<rparr>)]\<rparr>"
    by simp
  with b c show ?thesis
    by (simp add: Let_def Subscribe_def newFeed_def Lock_def Unlock_def)
qed

subsection \<open>A well-formed record\<close>

text \<open>
  C1. The claim is that for the stream \<open>id:I\<close>, \<open>event:E\<close>, \<open>data:D\<close> and a blank line
  every subscriber whose filter is empty or equal to \<open>E\<close> receives exactly the one event
  of that record. Subscriber \<open>a\<close>, without a filter, and subscriber \<open>b\<close>, with the filter
  \<open>greeting\<close>, subscribe to a fresh feed, and \<open>a\<close> calls \<open>Subscription.Close\<close>, which
  closes its channel and leaves its entry in the map. The mutex is free, the stop channel
  open and the feed not closed. The read loop then reads the record \<open>id:1\<close>,
  \<open>event:greeting\<close>, \<open>data:hello\<close>: at the blank line the fan-out sends the event to \<open>a\<close>,
  on its closed channel, and panics.
\<close>

theorem record_after_Subscription_Close_panics:
  "(let a = \<lparr>sub_id = ''a'', eventType = [], feed = make_chan, errFeed = make_chan\<rparr>;
        b = \<lparr>sub_id = ''b'', eventType = ''greeting'', feed = make_chan, errFeed = make_chan\<rparr>;
        s1 = newFeed\<lparr>subscriptions := [(''a'', a)]\<rparr>;
        s2 = newFeed\<lparr>subscriptions := [(''a'', a), (''b'', b)]\<rparr>;
        s3 = newFeed\<lparr>subscriptions :=
               [(''a'', a\<lparr>feed := make_chan\<lparr>chan_closed := True\<rparr>\<rparr>), (''b'', b)]\<rparr>
    in Subscribe [] ''a'' newFeed = Inr (s1, Some a, None) \<and>
       Subscribe ''greeting'' ''b'' s1 = Inr (s2, Some b, None) \<and>
       Subscription_Close a s2 = Inr s3 \<and>
       \<not> subscriptionsMtx s3 \<and> \<not> chan_closed (stopChan s3) \<and> \<not> closed s3 \<and>
       readLoop [(''id:1'' @ [LF], None), (''event:greeting'' @ [LF], None),
                 (''data:hello'' @ [LF], None), ([LF], None)] s3 = Inl SendOnClosedChannel)"
  by (simp add: Let_def newFeed_def make_chan_def close_chan_def Subscribe_def
      Subscription_Close_def closeSubscription_def
      Lock_def Unlock_def processRaw_def processField_def LF_def TrimRight_def trimRightByte_def
      SplitN_def index_def Trim_def trimLeftByte_def emptyEvent_def send_def)

subsection \<open>Unsubscribing\<close>

text \<open>
  C3. The claim is that \<open>closeSubscription\<close> removes the subscription from the registry,
  so that later events pass it by and the other subscribers still receive theirs. With
  subscribers \<open>a\<close> and \<open>b\<close>, both without a filter, \<open>closeSubscription\<close> of \<open>a\<close> returns
  true and closes the channel of \<open>a\<close>, but \<open>a\<close> stays in the map; the next record is then
  sent to \<open>a\<close> too, on its closed channel, and the fan-out panics.
\<close>

theorem delivery_after_closeSubscription_panics:
  "(let a = \<lparr>sub_id = ''a'', eventType = [], feed = make_chan, errFeed = make_chan\<rparr>;
        b = \<lparr>sub_id = ''b'', eventType = [], feed = make_chan, errFeed = make_chan\<rparr>;
        s = newFeed\<lparr>subscriptions := [(''a'', a), (''b'', b)]\<rparr>;
        s' = newFeed\<lparr>subscriptions :=
               [(''a'', a\<lparr>feed := make_chan\<lparr>chan_closed := True\<rparr>\<rparr>), (''b'', b)]\<rparr>
    in closeSubscription ''a'' s = Inr (s', True) \<and>
       map_of (subscriptions s') ''a'' \<noteq> None \<and>
       readLoop [(''data:x'' @ [LF], None), ([LF], None)] s' = Inl SendOnClosedChannel)"
  by (simp add: Let_def newFeed_def make_chan_def close_chan_def closeSubscription_def
      Lock_def Unlock_def processRaw_def processField_def LF_def TrimRight_def trimRightByte_def
      SplitN_def index_def Trim_def trimLeftByte_def emptyEvent_def send_def)

subsection \<open>A fatal read error\<close>

text \<open>
  C4. The claim is that after a fatal read error every subscriber is sent the error and
  the feed becomes closed. With one subscriber registered, \<open>error\<close> takes the mutex, sends
  the error, and calls \<open>Close\<close>, whose \<open>closeSubscription\<close> calls \<open>Lock\<close> on the mutex
  that \<open>error\<close> still holds: the call never returns, and the closed flag is never set.
\<close>

theorem error_with_a_subscriber_blocks:
  "(let sub = \<lparr>sub_id = ''sub-1'', eventType = [], feed = make_chan, errFeed = make_chan\<rparr>;
        s = newFeed\<lparr>subscriptions := [(''sub-1'', sub)]\<rparr>
    in Subscribe [] ''sub-1'' newFeed = Inr (s, Some sub, None) \<and>
       error ''connection reset'' s = Inl BlockedOnMutex \<and>
       readLoop [([], Some (ReadError ''connection reset''))] s = Inl BlockedOnMutex)"
  by (simp add: Let_def newFeed_def make_chan_def Subscribe_def Lock_def Unlock_def error_def
      send_def Close_def close_chan_def closeSubscription_def)

subsection \<open>Trimming the value of a field\<close>

text \<open>
  C5, as stated: at most one leading and one trailing space are trimmed from the value.
  On the line \<open>data:  x  \<close>, with two spaces on each side, the code stores \<open>x\<close>, where
  the trim of at most one space on each side leaves one space on each side.
\<close>

theorem trim_removes_more_than_one_space:
  "processRaw (''data:  x  '' @ [LF]) newFeed =
     Inr (newFeed\<lparr>unfinishedEvent := Some (emptyEvent\<lparr>evData := ''x''\<rparr>)\<rparr>) \<and>
   spec_trim_single_space ''  x  '' = '' x '' \<and>
   processRaw (''data:  x  '' @ [LF]) newFeed \<noteq>
     Inr (newFeed\<lparr>unfinishedEvent :=
       Some (emptyEvent\<lparr>evData := spec_trim_single_space ''  x  ''\<rparr>)\<rparr>)"
  by (simp add: processRaw_def processField_def LF_def TrimRight_def trimRightByte_def
      SplitN_def index_def Trim_def trimLeftByte_def newFeed_def emptyEvent_def
      spec_trim_single_space_def)

text \<open>
  C5, amended: every leading and every trailing space of the value is trimmed, and
  nothing else. For a line \<open>id:v\<close>, \<open>event:v\<close> or \<open>data:v\<close> the stored value \<open>w\<close> is \<open>v\<close>
  without a block of spaces at its start and one at its end, and \<open>w\<close> itself neither
  starts nor ends with a space; other white space, a tab for one, stays.
\<close>

theorem field_value_trimmed_of_all_spaces:
  assumes "LF \<notin> set v"
  shows "\<exists>w n m. v = replicate n (CHR '' '') @ w @ replicate m (CHR '' '') \<and>
     (w = [] \<or> (hd w \<noteq> CHR '' '' \<and> last w \<noteq> CHR '' '')) \<and>
     processRaw (''id:'' @ v @ [LF]) s =
       Inr (s\<lparr>unfinishedEvent :=
         Some ((case unfinishedEvent s of None \<Rightarrow> emptyEvent | Some u \<Rightarrow> u)\<lparr>evId := w\<rparr>)\<rparr>) \<and>
     processRaw (''event:'' @ v @ [LF]) s =
       Inr (s\<lparr>unfinishedEvent :=
         Some ((case unfinishedEvent s of None \<Rightarrow> emptyEvent | Some u \<Rightarrow> u)\<lparr>evEvent := w\<rparr>)\<rparr>) \<and>
     processRaw (''data:'' @ v @ [LF]) s =
       Inr (s\<lparr>unfinishedEvent :=
         Some ((case unfinishedEvent s of None \<Rightarrow> emptyEvent | Some u \<Rightarrow> u)\<lparr>evData := w\<rparr>)\<rparr>)"
proof -
  obtain n m where "v = replicate n (CHR '' '') @ Trim v (CHR '' '') @ replicate m (CHR '' '')"
    and "Trim v (CHR '' '') = [] \<or>
      (hd (Trim v (CHR '' '')) \<noteq> CHR '' '' \<and> last (Trim v (CHR '' '')) \<noteq> CHR '' '')"
    using Trim_spaces [of v "CHR '' ''"] by blast
  then show ?thesis
    using processRaw_id [OF assms, of s] processRaw_event [OF assms, of s]
      processRaw_data [OF assms, of s]
    by blast
qed

theorem field_value_trimmed_of_all_spaces_witness:
  "LF \<notin> set ''  a b  '' \<and>
   processRaw (''data:  a b  '' @ [LF]) newFeed =
     Inr (newFeed\<lparr>unfinishedEvent := Some (emptyEvent\<lparr>evData := ''a b''\<rparr>)\<rparr>)"
proof -
  have h: "LF \<notin> set ''  a b  ''" by (simp add: LF_def)
  from field_value_trimmed_of_all_spaces [OF h, of newFeed]
  obtain w n m where v: "''  a b  '' = replicate n (CHR '' '') @ w @ replicate m (CHR '' '')"
    and d: "processRaw (''data:'' @ ''  a b  '' @ [LF]) newFeed =
       Inr (newFeed\<lparr>unfinishedEvent :=
         Some ((case unfinishedEvent newFeed of None \<Rightarrow> emptyEvent | Some u \<Rightarrow> u)\<lparr>evData := w\<rparr>)\<rparr>)"
    by blast
  have "processRaw (''data:'' @ ''  a b  '' @ [LF]) newFeed =
     Inr (newFeed\<lparr>unfinishedEvent := Some (emptyEvent\<lparr>evData := ''a b''\<rparr>)\<rparr>)"
    by (simp add: processRaw_def processField_def LF_def TrimRight_def trimRightByte_def
        SplitN_def index_def Trim_def trimLeftByte_def newFeed_def)
  with h show ?thesis by simp
qed

subsection \<open>Repeated fields in one record\<close>

text \<open>
  C6. A record is a sequence of lines followed by a blank line. Each line is \<open>name:value\<close>,
  the name without a colon and the value without a newline (an unknown field such as
  \<open>retry:100\<close>, and a comment, the line with the empty name, are among them), or a name
  alone, other than \<open>id\<close>, \<open>event\<close> and \<open>data\<close>, on which \<open>processRaw\<close> panics. Let the
  record hold a line \<open>name:v\<close> with \<open>name\<close> one of \<open>id\<close>, \<open>event\<close>, \<open>data\<close>, and no later
  line of that name. Whatever the lines before it hold, earlier lines of the same name
  among them, and whatever the feed, its mutex and its subscriptions are, the event that
  is pending after the lines of the record has the trimmed \<open>v\<close> in that field, and the
  blank line hands this event to the fan-out once the mutex is taken: a later line
  overwrites, nothing is concatenated.
\<close>

theorem repeated_fields_last_write_wins:
  assumes running: "\<not> chan_closed (stopChan s)"
    and wf: "\<forall>(n, val) \<in> set (pre @ post). CHR '':'' \<notin> set n \<and>
      (case val of Some w \<Rightarrow> LF \<notin> set w
       | None \<Rightarrow> n \<noteq> [] \<and> LF \<notin> set n \<and> n \<notin> {''id'', ''event'', ''data''})"
    and val: "LF \<notin> set v"
    and name: "name \<in> {''id'', ''event'', ''data''}"
    and last: "name \<notin> fst ` set post"
  shows "\<exists>evt.
     readLoop (map (\<lambda>l. (recordLine l, None)) (pre @ (name, Some v) # post)) s =
       Inr (s\<lparr>unfinishedEvent := Some evt\<rparr>) \<and>
     (name = ''id'' \<longrightarrow> evId evt = Trim v (CHR '' '')) \<and>
     (name = ''event'' \<longrightarrow> evEvent evt = Trim v (CHR '' '')) \<and>
     (name = ''data'' \<longrightarrow> evData evt = Trim v (CHR '' '')) \<and>
     readLoop (map (\<lambda>l. (recordLine l, None)) (pre @ (name, Some v) # post) @ [([LF], None)]) s =
       (if subscriptionsMtx s then Inl BlockedOnMutex
        else case deliver evt (subscriptions s) of
               Inl f \<Rightarrow> Inl f
             | Inr subs \<Rightarrow> Inr (s\<lparr>unfinishedEvent := None, subscriptions := subs\<rparr>))"
proof -
  let ?ls = "pre @ (name, Some v) # post"
  let ?p = "pendingAfter (unfinishedEvent s) ?ls"
  have wf': "\<forall>(n, val) \<in> set ?ls. CHR '':'' \<notin> set n \<and>
      (case val of Some w \<Rightarrow> LF \<notin> set w
       | None \<Rightarrow> n \<noteq> [] \<and> LF \<notin> set n \<and> n \<notin> {''id'', ''event'', ''data''})"
    using wf val name by auto
  obtain evt where evt: "?p = Some evt"
    and fields: "(name = ''id'' \<longrightarrow> evId evt = Trim v (CHR '' '')) \<and>
     (name = ''event'' \<longrightarrow> evEvent evt = Trim v (CHR '' '')) \<and>
     (name = ''data'' \<longrightarrow> evData evt = Trim v (CHR '' ''))"
    using pendingAfter_last [OF name last, of "unfinishedEvent s" pre v] by blast
  let ?s1 = "s\<lparr>unfinishedEvent := Some evt\<rparr>"
  have a: "readLoop (map (\<lambda>l. (recordLine l, None)) ?ls) s = Inr ?s1"
    using readLoop_recordLines [OF wf' running, of "[]"] evt by simp
  have "processRaw [LF] ?s1 =
     (if subscriptionsMtx s then Inl BlockedOnMutex
      else case deliver evt (subscriptions s) of
             Inl f \<Rightarrow> Inl f
           | Inr subs \<Rightarrow> Inr (s\<lparr>unfinishedEvent := None, subscriptions := subs\<rparr>))"
    using processRaw_blank_pending [of ?s1 evt] by (simp split: sum.splits)
  then have b: "readLoop (map (\<lambda>l. (recordLine l, None)) ?ls @ [([LF], None)]) s =
     (if subscriptionsMtx s then Inl BlockedOnMutex
      else case deliver evt (subscriptions s) of
             Inl f \<Rightarrow> Inl f
           | Inr subs \<Rightarrow> Inr (s\<lparr>unfinishedEvent := None, subscriptions := subs\<rparr>))"
    using readLoop_recordLines [OF wf' running, of "[([LF], None)]"] evt running
    by (simp split: sum.splits)
  from a b fields show ?thesis by blast
qed

theorem repeated_fields_last_write_wins_witness:
  "readLoop [(''data:first'' @ [LF], None), (''retry:100'' @ [LF], None),
             ('': keep-alive'' @ [LF], None), (''data:second'' @ [LF], None),
             (''ping'' @ [LF], None), ([LF], None)]
     (newFeed\<lparr>subscriptions :=
        [(''a'', \<lparr>sub_id = ''a'', eventType = [], feed = make_chan, errFeed = make_chan\<rparr>)]\<rparr>) =
   Inr (newFeed\<lparr>subscriptions :=
        [(''a'', \<lparr>sub_id = ''a'', eventType = [],
            feed = \<lparr>chan_closed = False,
                     sent = [\<lparr>evId = [], evEvent = [], evData = ''second''\<rparr>]\<rparr>,
            errFeed = make_chan\<rparr>)]\<rparr>)"
proof -
  let ?sub = "\<lparr>sub_id = ''a'', eventType = [], feed = make_chan, errFeed = make_chan\<rparr>"
  let ?s = "newFeed\<lparr>subscriptions := [(''a'', ?sub)]\<rparr>"
  let ?pre = "[(''data'', Some ''first''), (''retry'', Some ''100''), ([], Some '' keep-alive'')]"
  let ?post = "[(''ping'', None :: string option)]"
  let ?e = "\<lparr>evId = [], evEvent = [], evData = ''second''\<rparr>"
  have running: "\<not> chan_closed (stopChan ?s)" by (simp add: newFeed_def make_chan_def)
  have wf: "\<forall>(n, val) \<in> set (?pre @ ?post). CHR '':'' \<notin> set n \<and>
      (case val of Some w \<Rightarrow> LF \<notin> set w
       | None \<Rightarrow> n \<noteq> [] \<and> LF \<notin> set n \<and> n \<notin> {''id'', ''event'', ''data''})"
    by (simp add: LF_def)
  have val: "LF \<notin> set ''second''" by (simp add: LF_def)
  have name: "''data'' \<in> {''id'', ''event'', ''data''}" by simp
  have last: "''data'' \<notin> fst ` set ?post" by simp
  from repeated_fields_last_write_wins [OF running wf val name last]
  obtain evt where
    run: "readLoop (map (\<lambda>l. (recordLine l, None)) (?pre @ (''data'', Some ''second'') # ?post) @
            [([LF], None)]) ?s =
       (if subscriptionsMtx ?s then Inl BlockedOnMutex
        else case deliver evt (subscriptions ?s) of
               Inl f \<Rightarrow> Inl f
             | Inr subs \<Rightarrow> Inr (?s\<lparr>unfinishedEvent := None, subscriptions := subs\<rparr>))"
    and pending: "readLoop (map (\<lambda>l. (recordLine l, None)) (?pre @ (''data'', Some ''second'') # ?post)) ?s =
       Inr (?s\<lparr>unfinishedEvent := Some evt\<rparr>)"
    by blast
  have conc: "readLoop (map (\<lambda>l. (recordLine l, None)) (?pre @ (''data'', Some ''second'') # ?post)) ?s =
       Inr (?s\<lparr>unfinishedEvent := Some ?e\<rparr>)"
    by (simp add: recordLine_def processRaw_def processField_def LF_def TrimRight_def
        trimRightByte_def SplitN_def index_def Trim_def trimLeftByte_def newFeed_def
        make_chan_def emptyEvent_def)
  from pending conc
  have "(Inr (?s\<lparr>unfinishedEvent := Some evt\<rparr>) :: fault + SSEFeed) =
      Inr (?s\<lparr>unfinishedEvent := Some ?e\<rparr>)"
    by (rule trans [OF sym])
  then have evt: "evt = ?e"
    by (simp add: newFeed_def)
  have lines: "map (\<lambda>l. (recordLine l, None)) (?pre @ (''data'', Some ''second'') # ?post) @
            [([LF], None)] =
      [(''data:first'' @ [LF], None), (''retry:100'' @ [LF], None),
       ('': keep-alive'' @ [LF], None), (''data:second'' @ [LF], None),
       (''ping'' @ [LF], None), ([LF], None)]"
    by (simp add: recordLine_def)
  have res: "(if subscriptionsMtx ?s then Inl BlockedOnMutex
        else case deliver ?e (subscriptions ?s) of
               Inl f \<Rightarrow> Inl f
             | Inr subs \<Rightarrow> Inr (?s\<lparr>unfinishedEvent := None, subscriptions := subs\<rparr>)) =
     Inr (newFeed\<lparr>subscriptions :=
        [(''a'', \<lparr>sub_id = ''a'', eventType = [],
            feed = \<lparr>chan_closed = False, sent = [?e]\<rparr>,
            errFeed = make_chan\<rparr>)]\<rparr>)"
    by (simp add: newFeed_def make_chan_def send_def)
  from run show ?thesis
    unfolding evt lines res .
qed

subsection \<open>The mutex and the pending event\<close>

text \<open>
  C10. The claim is that the pending event is only touched with the mutex held. The
  branch of \<open>processRaw\<close> for a field line (lines 170-189) never calls \<open>Lock\<close>: with the
  mutex held by another caller it still runs to the end and writes the pending event,
  where the branch for the blank line, which does call \<open>Lock\<close>, waits. \<open>Close\<close> ranges
  over the map without the mutex as well: on a feed without subscriptions it returns
  while another caller holds the mutex.
\<close>

theorem processRaw_field_line_takes_no_lock:
  "(let s = newFeed\<lparr>subscriptionsMtx := True\<rparr>
    in processRaw (''id:1'' @ [LF]) s =
         Inr (s\<lparr>unfinishedEvent := Some (emptyEvent\<lparr>evId := ''1''\<rparr>)\<rparr>) \<and>
       processRaw [LF] s = Inl BlockedOnMutex \<and>
       Close s = Inr (s\<lparr>stopChan := make_chan\<lparr>chan_closed := True\<rparr>, closed := True\<rparr>))"
  by (simp add: Let_def processRaw_def processField_def LF_def TrimRight_def trimRightByte_def
      SplitN_def index_def Trim_def trimLeftByte_def newFeed_def emptyEvent_def Lock_def
      Close_def close_chan_def make_chan_def)

end
